theory Spec2Isabelle
  imports Main
begin

section \<open>PDF bookmark tool: record parser, tree builder, attachment walker\<close>

text \<open>
  A shallow embedding of \<^verbatim>\<open>pdf_bookmark_tool.py\<close>. Exceptions are values of the sum type
  \<open>exn + 'a\<close>, \<^verbatim>\<open>print\<close> appends a structured message to an output log, and the nested
  lists that \<^verbatim>\<open>create_bookmark_tree\<close> mutates through the references on its stack live in
  an explicit store of list cells.
\<close>

subsection \<open>Exceptions and printed messages\<close>

text \<open>
  \<open>IndexError\<close> is what \<^verbatim>\<open>parents[-1]\<close> and \<^verbatim>\<open>parents.pop()\<close> raise on an empty list.
  \<open>Fault\<close> stands for any exception (a subclass of \<^verbatim>\<open>Exception\<close>) raised by the file system,
  by the PDF library or by the console. \<open>CyclicStructure\<close> belongs to the model only: it is the result of
  reading a nested value out of a store whose cells refer to each other in a cycle, which
  lemma \<open>create_bookmark_tree_not_cyclic\<close> below shows the builder never produces.
\<close>

datatype exn = IndexError | Fault string | CyclicStructure

datatype message =
    BadLineWarning string
  | EmptyError
  | PageWarning string int nat
  | Success string
  | OffsetApplied int
  | ExceptionError exn

subsection \<open>Flat records and the line parser\<close>

text \<open>
  A flat record is the dictionary \<^verbatim>\<open>{'level', 'title', 'page'}\<close>. The level is
  \<^verbatim>\<open>int(match.group(1))\<close> of a \<^verbatim>\<open>\d+\<close> match, a natural number; the page is an unbounded
  integer, since the offset may be negative.
\<close>

record bookmark =
  level :: nat
  title :: string
  page :: int

text \<open>
  Characters are code points below 256. On that range the whitespace of \<^verbatim>\<open>str.strip\<close> and of
  \<^verbatim>\<open>\s\<close> is U+0009..U+000D, U+001C..U+0020, U+0085 and U+00A0; the digits of \<^verbatim>\<open>\d\<close> are
  0..9; \<^verbatim>\<open>.\<close> is every character but the newline.
\<close>

definition is_space :: "char \<Rightarrow> bool" where
  "is_space c = (let n = (of_char c :: nat) in
     (9 \<le> n \<and> n \<le> 13) \<or> (28 \<le> n \<and> n \<le> 32) \<or> n = 133 \<or> n = 160)"

definition is_digit :: "char \<Rightarrow> bool" where
  "is_digit c = (let n = (of_char c :: nat) in 48 \<le> n \<and> n \<le> 57)"

definition is_dot :: "char \<Rightarrow> bool" where
  "is_dot c = (c \<noteq> CHR 0x0A)"

definition strip :: "string \<Rightarrow> string" where
  "strip s = rev (dropWhile is_space (rev (dropWhile is_space s)))"

definition startswith_hash :: "string \<Rightarrow> bool" where
  "startswith_hash line = (case line of [] \<Rightarrow> False | c # _ \<Rightarrow> c = CHR ''#'')"

text \<open>
  The regular expression \<^verbatim>\<open>^(\d+)\s+(.+?)\s+(\d+)$\<close> as a backtracking matcher: each
  quantifier lists the ways to split its input, longest piece first when greedy and
  shortest first when lazy, and \<^verbatim>\<open>re.match\<close> returns the groups of the first combination
  that reaches the end of the line (\<^verbatim>\<open>$\<close> also matches before a final newline).
\<close>

definition greedy :: "(char \<Rightarrow> bool) \<Rightarrow> string \<Rightarrow> (string \<times> string) list" where
  "greedy P s = [(take n s, drop n s). n \<leftarrow> rev [1 ..< Suc (length (takeWhile P s))]]"

definition lazy :: "(char \<Rightarrow> bool) \<Rightarrow> string \<Rightarrow> (string \<times> string) list" where
  "lazy P s = [(take n s, drop n s). n \<leftarrow> [1 ..< Suc (length (takeWhile P s))]]"

definition at_end :: "string \<Rightarrow> bool" where
  "at_end r = (r = [] \<or> r = [CHR 0x0A])"

definition re_match :: "string \<Rightarrow> (string \<times> string \<times> string) option" where
  "re_match line =
     (case [(g1, g2, g3).
              (g1, r1) \<leftarrow> greedy is_digit line,
              (w1, r2) \<leftarrow> greedy is_space r1,
              (g2, r3) \<leftarrow> lazy is_dot r2,
              (w2, r4) \<leftarrow> greedy is_space r3,
              (g3, r5) \<leftarrow> greedy is_digit r4,
              at_end r5]
      of [] \<Rightarrow> None | m # _ \<Rightarrow> Some m)"

text \<open>
  The lines the pattern describes: digits, whitespace, a title, whitespace, digits, each
  piece non-empty, up to the end of the line. Lemma \<open>re_match_iff\<close> below shows that the
  matcher accepts exactly these lines.
\<close>

definition line_shape :: "string \<Rightarrow> string \<Rightarrow> string \<Rightarrow> string \<Rightarrow> bool" where
  "line_shape l g1 g2 g3 =
     (\<exists>w1 w2 e. l = g1 @ w1 @ g2 @ w2 @ g3 @ e
        \<and> g1 \<noteq> [] \<and> list_all is_digit g1
        \<and> w1 \<noteq> [] \<and> list_all is_space w1
        \<and> g2 \<noteq> [] \<and> list_all is_dot g2
        \<and> w2 \<noteq> [] \<and> list_all is_space w2
        \<and> g3 \<noteq> [] \<and> list_all is_digit g3
        \<and> at_end e)"

text \<open>\<^verbatim>\<open>int(s)\<close> on a string of decimal digits.\<close>

definition py_int :: "string \<Rightarrow> nat" where
  "py_int s = foldl (\<lambda>n c. 10 * n + (of_char c - 48)) 0 s"

text \<open>
  The loop over the lines of the file. \<open>bookmarks\<close> and \<open>out\<close> are the list being appended
  to and the messages printed so far.
\<close>

fun parse_loop :: "int \<Rightarrow> string list \<Rightarrow> bookmark list \<Rightarrow> message list
    \<Rightarrow> bookmark list \<times> message list" where
  "parse_loop page_offset [] bookmarks out = (bookmarks, out)"
| "parse_loop page_offset (raw # rest) bookmarks out =
     (let line = strip raw in
      if line = [] \<or> startswith_hash line then parse_loop page_offset rest bookmarks out
      else
        (case re_match line of
           Some (g1, g2, g3) \<Rightarrow>
             (let level = py_int g1;
                  title = g2;
                  page = int (py_int g3);
                  adjusted_page = page + page_offset - 1
              in parse_loop page_offset rest
                   (bookmarks @ [\<lparr>level = level, title = title, page = adjusted_page\<rparr>]) out)
         | None \<Rightarrow>
             parse_loop page_offset rest bookmarks (out @ [BadLineWarning line])))"

text \<open>
  The file as the parser sees it: the lines that could be read, and the exception that
  ended the reading, if any (a file that cannot be opened has no lines and a fault).
\<close>

type_synonym text_file = "string list \<times> exn option"

definition parse_bookmark_file :: "text_file \<Rightarrow> int \<Rightarrow> message list \<times> (exn + bookmark list)" where
  "parse_bookmark_file f page_offset =
     (case parse_loop page_offset (fst f) [] [] of
        (bookmarks, out) \<Rightarrow>
          (case snd f of
             Some e \<Rightarrow> (out, Inl e)
           | None \<Rightarrow> (out, Inr bookmarks)))"

text \<open>
  Used to state what the loop computes: the lines that reach the pattern (trimmed, not
  empty, not starting with \<^verbatim>\<open>#\<close>), and the record made from the groups of a match.
\<close>

definition considered :: "string list \<Rightarrow> string list" where
  "considered lines = filter (\<lambda>l. \<not> (l = [] \<or> startswith_hash l)) (map strip lines)"

definition record_of :: "int \<Rightarrow> string \<times> string \<times> string \<Rightarrow> bookmark" where
  "record_of page_offset m =
     (case m of (g1, g2, g3) \<Rightarrow>
        \<lparr>level = py_int g1, title = g2, page = int (py_int g3) + page_offset - 1\<rparr>)"

subsection \<open>The tree builder\<close>

text \<open>
  An outline node in the store is the dictionary \<^verbatim>\<open>{'title', 'page'}\<close> with an optional
  \<^verbatim>\<open>'children'\<close> key holding a reference to a list; \<open>None\<close> is the absent key. Every list
  is a cell of the store, and a reference to a list is the address of its cell. A node
  belongs to exactly one list, so it is kept by value inside that list's cell.
\<close>

record node =
  title :: string
  page :: int
  children :: "nat option"

record builder =
  cells :: "nat \<Rightarrow> node list"
  fresh :: nat
  parents :: "nat list"
  prev_level :: nat

text \<open>The value of a nested list of dictionaries, as the walker reads it.\<close>

datatype outline = Outline string int "outline list option"

definition root :: nat where
  "root = 0"

text \<open>\<^verbatim>\<open>root = []; parents = [root]; prev_level = 0\<close>\<close>

definition init :: builder where
  "init = \<lparr>cells = (\<lambda>_. []), fresh = Suc root, parents = [root], prev_level = 0\<rparr>"

text \<open>\<^verbatim>\<open>parents[-1]\<close>\<close>

definition top :: "nat list \<Rightarrow> exn + nat" where
  "top ps = (if ps = [] then Inl IndexError else Inr (last ps))"

text \<open>\<^verbatim>\<open>for _ in range(n): parents.pop()\<close>\<close>

fun pops :: "nat \<Rightarrow> nat list \<Rightarrow> exn + nat list" where
  "pops 0 ps = Inr ps"
| "pops (Suc n) ps = (if ps = [] then Inl IndexError else pops n (butlast ps))"

text \<open>The branch \<^verbatim>\<open>level > prev_level\<close>.\<close>

definition descend :: "builder \<Rightarrow> exn + builder" where
  "descend st =
     (case top (parents st) of
        Inl e \<Rightarrow> Inl e
      | Inr a \<Rightarrow>
          if length (cells st a) > 0 then
            (let last_item = last (cells st a) in
             case children last_item of
               None \<Rightarrow>
                 (let c = fresh st in
                  Inr (st\<lparr>cells := (cells st)
                              (a := butlast (cells st a) @ [last_item\<lparr>children := Some c\<rparr>],
                               c := []),
                           fresh := Suc c,
                           parents := parents st @ [c]\<rparr>))
             | Some c \<Rightarrow> Inr (st\<lparr>parents := parents st @ [c]\<rparr>))
          else Inr st)"

text \<open>The branch \<^verbatim>\<open>level < prev_level\<close>.\<close>

definition ascend :: "nat \<Rightarrow> builder \<Rightarrow> exn + builder" where
  "ascend n st =
     (case pops n (parents st) of
        Inl e \<Rightarrow> Inl e
      | Inr ps \<Rightarrow> Inr (st\<lparr>parents := ps\<rparr>))"

definition adjust :: "nat \<Rightarrow> builder \<Rightarrow> exn + builder" where
  "adjust lv st =
     (if lv > prev_level st then descend st
      else if lv < prev_level st then ascend (prev_level st - lv) st
      else Inr st)"

definition new_node :: "bookmark \<Rightarrow> node" where
  "new_node b = \<lparr>node.title = bookmark.title b, page = bookmark.page b, children = None\<rparr>"

text \<open>\<^verbatim>\<open>parents[-1].append({...}); prev_level = level\<close>\<close>

definition attach :: "bookmark \<Rightarrow> builder \<Rightarrow> exn + builder" where
  "attach b st =
     (case top (parents st) of
        Inl e \<Rightarrow> Inl e
      | Inr a \<Rightarrow>
          Inr (st\<lparr>cells := (cells st)(a := cells st a @ [new_node b]),
                   prev_level := level b\<rparr>))"

text \<open>One iteration of the loop over the records.\<close>

definition step :: "bookmark \<Rightarrow> builder \<Rightarrow> exn + builder" where
  "step b st = (case adjust (level b) st of Inl e \<Rightarrow> Inl e | Inr st1 \<Rightarrow> attach b st1)"

fun build :: "bookmark list \<Rightarrow> builder \<Rightarrow> exn + builder" where
  "build [] st = Inr st"
| "build (b # bs) st = (case step b st of Inl e \<Rightarrow> Inl e | Inr st1 \<Rightarrow> build bs st1)"

text \<open>
  The nested value behind the reference \<open>a\<close>. The first argument bounds the nesting
  depth that is followed; no value is read out of a store that is deeper.
\<close>

fun reify :: "nat \<Rightarrow> (nat \<Rightarrow> node list) \<Rightarrow> nat \<Rightarrow> outline list option" where
  "reify 0 h a = None"
| "reify (Suc n) h a =
     those (map (\<lambda>nd. case children nd of
                         None \<Rightarrow> Some (Outline (node.title nd) (node.page nd) None)
                       | Some c \<Rightarrow>
                           map_option (\<lambda>ys. Outline (node.title nd) (node.page nd) (Some ys))
                             (reify n h c))
                (h a))"

text \<open>
  \<^verbatim>\<open>return root\<close>: the forest behind the root reference. A store with \<open>fresh st\<close> cells
  cannot nest deeper than \<open>fresh st\<close> lists.
\<close>

definition create_bookmark_tree :: "bookmark list \<Rightarrow> exn + outline list" where
  "create_bookmark_tree bookmarks =
     (case build bookmarks init of
        Inl e \<Rightarrow> Inl e
      | Inr st \<Rightarrow>
          (case reify (fresh st) (cells st) root of
             None \<Rightarrow> Inl CyclicStructure
           | Some forest \<Rightarrow> Inr forest))"

text \<open>Pre-order traversal of a forest: each node before its children, siblings in order.\<close>

fun preorder_node :: "outline \<Rightarrow> (string \<times> int) list" where
  "preorder_node (Outline t p ch) =
     (t, p) # (case ch of None \<Rightarrow> [] | Some kids \<Rightarrow> concat (map preorder_node kids))"

definition preorder :: "outline list \<Rightarrow> (string \<times> int) list" where
  "preorder forest = concat (map preorder_node forest)"

subsection \<open>Attaching the outline to the document\<close>

text \<open>
  The PDF library and the file system are collaborators: what they return, and whether a
  call raises, is a parameter of the model. The writer records the pages copied and the
  outline entries attached; the handle of an entry is its position in that list.
\<close>

record writer =
  pages :: nat
  outline_items :: "(string \<times> int \<times> nat option) list"

record pdf_lib =
  read_lines :: "string \<Rightarrow> text_file"
  open_reader :: "string \<Rightarrow> exn + nat"
  add_page_fault :: "nat \<Rightarrow> exn option"
  add_outline_fault :: "string \<Rightarrow> int \<Rightarrow> nat option \<Rightarrow> exn option"
  open_output_fault :: "string \<Rightarrow> exn option"
  write_fault :: "string \<Rightarrow> exn option"

datatype saved = NotWritten | Saved writer | Incomplete

definition empty_writer :: writer where
  "empty_writer = \<lparr>pages = 0, outline_items = []\<rparr>"

definition add_outline_item ::
    "pdf_lib \<Rightarrow> string \<Rightarrow> int \<Rightarrow> nat option \<Rightarrow> writer \<Rightarrow> exn + (nat \<times> writer)" where
  "add_outline_item lib t page_num parent w =
     (case add_outline_fault lib t page_num parent of
        Some e \<Rightarrow> Inl e
      | None \<Rightarrow>
          Inr (length (outline_items w),
               w\<lparr>outline_items := outline_items w @ [(t, page_num, parent)]\<rparr>))"

text \<open>\<^verbatim>\<open>for page in reader.pages: writer.add_page(page)\<close>\<close>

fun copy_pages :: "pdf_lib \<Rightarrow> nat list \<Rightarrow> writer \<Rightarrow> exn + writer" where
  "copy_pages lib [] w = Inr w"
| "copy_pages lib (i # rest) w =
     (case add_page_fault lib i of
        Some e \<Rightarrow> Inl e
      | None \<Rightarrow> copy_pages lib rest (w\<lparr>pages := Suc (pages w)\<rparr>))"

text \<open>The advisory check of every flat record against the page count.\<close>

fun page_warnings :: "nat \<Rightarrow> bookmark list \<Rightarrow> message list" where
  "page_warnings total_pages [] = []"
| "page_warnings total_pages (b # bs) =
     (if bookmark.page b < 0 \<or> bookmark.page b \<ge> int total_pages
      then PageWarning (bookmark.title b) (bookmark.page b + 1) total_pages
             # page_warnings total_pages bs
      else page_warnings total_pages bs)"

definition clamp_page :: "nat \<Rightarrow> int \<Rightarrow> int" where
  "clamp_page total_pages p = max 0 (min p (int total_pages - 1))"

text \<open>The nested function \<^verbatim>\<open>add_bookmarks_recursively(parent, bookmarks)\<close>.\<close>

fun add_bookmarks_recursively ::
    "pdf_lib \<Rightarrow> nat \<Rightarrow> nat \<Rightarrow> outline list \<Rightarrow> writer \<Rightarrow> exn + writer" where
  "add_bookmarks_recursively lib total_pages parent [] w = Inr w"
| "add_bookmarks_recursively lib total_pages parent (Outline t p ch # rest) w =
     (let page_num = clamp_page total_pages p in
      case ch of
        Some kids \<Rightarrow>
          (case add_outline_item lib t page_num (Some parent) w of
             Inl e \<Rightarrow> Inl e
           | Inr (new_parent, w1) \<Rightarrow>
               (case add_bookmarks_recursively lib total_pages new_parent kids w1 of
                  Inl e \<Rightarrow> Inl e
                | Inr w2 \<Rightarrow> add_bookmarks_recursively lib total_pages parent rest w2))
      | None \<Rightarrow>
          (case add_outline_item lib t page_num (Some parent) w of
             Inl e \<Rightarrow> Inl e
           | Inr (_, w1) \<Rightarrow> add_bookmarks_recursively lib total_pages parent rest w1))"

text \<open>The loop over the root nodes, which attaches them without a parent.\<close>

fun add_root_bookmarks :: "pdf_lib \<Rightarrow> nat \<Rightarrow> outline list \<Rightarrow> writer \<Rightarrow> exn + writer" where
  "add_root_bookmarks lib total_pages [] w = Inr w"
| "add_root_bookmarks lib total_pages (Outline t p ch # rest) w =
     (let page_num = clamp_page total_pages p in
      case ch of
        Some kids \<Rightarrow>
          (case add_outline_item lib t page_num None w of
             Inl e \<Rightarrow> Inl e
           | Inr (parent, w1) \<Rightarrow>
               (case add_bookmarks_recursively lib total_pages parent kids w1 of
                  Inl e \<Rightarrow> Inl e
                | Inr w2 \<Rightarrow> add_root_bookmarks lib total_pages rest w2))
      | None \<Rightarrow>
          (case add_outline_item lib t page_num None w of
             Inl e \<Rightarrow> Inl e
           | Inr (_, w1) \<Rightarrow> add_root_bookmarks lib total_pages rest w1))"

text \<open>
  The console is a collaborator too: \<^verbatim>\<open>print\<close> raises when the console cannot take a
  message (every message of the tool is non-ASCII text, which a console with a narrow
  encoding refuses). \<open>print_all\<close> prints messages in order up to the first one that
  raises, and returns the messages shown and that exception.
\<close>

type_synonym console = "message \<Rightarrow> exn option"

fun print_all :: "console \<Rightarrow> message list \<Rightarrow> message list \<times> exn option" where
  "print_all con [] = ([], None)"
| "print_all con (m # ms) =
     (case con m of
        Some e \<Rightarrow> ([], Some e)
      | None \<Rightarrow> (case print_all con ms of (shown, r) \<Rightarrow> (m # shown, r)))"

text \<open>
  The body of the \<^verbatim>\<open>try\<close> block: the messages printed, the state of the output file, and
  either the exception that left the block or the value returned. The parser prints its
  warnings while it reads, so a warning that cannot be printed ends the parse before the
  end of the file is reached. \<^verbatim>\<open>open(output_pdf, 'wb')\<close> creates the file: when it raises
  there is no file, when \<^verbatim>\<open>writer.write\<close> raises after it the file is incomplete.
\<close>

definition add_bookmarks_try ::
    "console \<Rightarrow> pdf_lib \<Rightarrow> string \<Rightarrow> string \<Rightarrow> string \<Rightarrow> int
       \<Rightarrow> message list \<times> saved \<times> (exn + bool)" where
  "add_bookmarks_try con lib input_pdf output_pdf bookmark_file page_offset =
     (case parse_bookmark_file (read_lines lib bookmark_file) page_offset of
        (warnings, r) \<Rightarrow>
          (case print_all con warnings of
             (out, Some e) \<Rightarrow> (out, NotWritten, Inl e)
           | (out, None) \<Rightarrow>
               (case r of
                  Inl e \<Rightarrow> (out, NotWritten, Inl e)
                | Inr bookmarks \<Rightarrow>
                    if bookmarks = [] then
                      (case con EmptyError of
                         Some e \<Rightarrow> (out, NotWritten, Inl e)
                       | None \<Rightarrow> (out @ [EmptyError], NotWritten, Inr False))
                    else
                      (case create_bookmark_tree bookmarks of
                         Inl e \<Rightarrow> (out, NotWritten, Inl e)
                       | Inr bookmark_tree \<Rightarrow>
                           (case open_reader lib input_pdf of
                              Inl e \<Rightarrow> (out, NotWritten, Inl e)
                            | Inr total_pages \<Rightarrow>
                                (case print_all con (page_warnings total_pages bookmarks) of
                                   (pw, Some e) \<Rightarrow> (out @ pw, NotWritten, Inl e)
                                 | (pw, None) \<Rightarrow>
                                     (let out2 = out @ pw in
                                      case copy_pages lib [0 ..< total_pages] empty_writer of
                                        Inl e \<Rightarrow> (out2, NotWritten, Inl e)
                                      | Inr w1 \<Rightarrow>
                                          (case add_root_bookmarks lib total_pages bookmark_tree w1 of
                                             Inl e \<Rightarrow> (out2, NotWritten, Inl e)
                                           | Inr w2 \<Rightarrow>
                                               (case open_output_fault lib output_pdf of
                                                  Some e \<Rightarrow> (out2, NotWritten, Inl e)
                                                | None \<Rightarrow>
                                                    (case write_fault lib output_pdf of
                                                       Some e \<Rightarrow> (out2, Incomplete, Inl e)
                                                     | None \<Rightarrow>
                                                         (case print_all con
                                                                 (Success output_pdf
                                                                    # (if page_offset \<noteq> 0
                                                                       then [OffsetApplied page_offset]
                                                                       else []))
                                                          of
                                                            (fin, Some e) \<Rightarrow>
                                                              (out2 @ fin, Saved w2, Inl e)
                                                          | (fin, None) \<Rightarrow>
                                                              (out2 @ fin, Saved w2, Inr True))))))))))))"

text \<open>
  \<^verbatim>\<open>try: ... except Exception as e: print(...); return False\<close>. The \<^verbatim>\<open>print\<close> of the
  handler runs outside any \<^verbatim>\<open>try\<close>: an exception it raises leaves the function. The
  result is the value returned or the exception that escaped, with the messages shown
  and the state of the output file.
\<close>

datatype result = Returned bool | Escaped exn

definition add_bookmarks_to_pdf_on ::
    "console \<Rightarrow> pdf_lib \<Rightarrow> string \<Rightarrow> string \<Rightarrow> string \<Rightarrow> int
       \<Rightarrow> result \<times> message list \<times> saved" where
  "add_bookmarks_to_pdf_on con lib input_pdf output_pdf bookmark_file page_offset =
     (case add_bookmarks_try con lib input_pdf output_pdf bookmark_file page_offset of
        (out, sv, Inr b) \<Rightarrow> (Returned b, out, sv)
      | (out, sv, Inl e) \<Rightarrow>
          (case con (ExceptionError e) of
             None \<Rightarrow> (Returned False, out @ [ExceptionError e], sv)
           | Some e' \<Rightarrow> (Escaped e', out, sv)))"

text \<open>
  The run on a console that takes every message: the body of the \<^verbatim>\<open>try\<close> block, and
  the operation with its handler. Lemma \<open>add_bookmarks_to_pdf_on_quiet\<close> below shows that
  \<open>add_bookmarks_to_pdf\<close> is \<open>add_bookmarks_to_pdf_on\<close> for that console.
\<close>

definition add_bookmarks_body ::
    "pdf_lib \<Rightarrow> string \<Rightarrow> string \<Rightarrow> string \<Rightarrow> int \<Rightarrow> message list \<times> saved \<times> (exn + bool)" where
  "add_bookmarks_body lib input_pdf output_pdf bookmark_file page_offset =
     add_bookmarks_try (\<lambda>_. None) lib input_pdf output_pdf bookmark_file page_offset"

record outcome =
  ok :: bool
  printed :: "message list"
  output_file :: saved

definition add_bookmarks_to_pdf ::
    "pdf_lib \<Rightarrow> string \<Rightarrow> string \<Rightarrow> string \<Rightarrow> int \<Rightarrow> outcome" where
  "add_bookmarks_to_pdf lib input_pdf output_pdf bookmark_file page_offset =
     (case add_bookmarks_body lib input_pdf output_pdf bookmark_file page_offset of
        (out, sv, Inl e) \<Rightarrow> \<lparr>ok = False, printed = out @ [ExceptionError e], output_file = sv\<rparr>
      | (out, sv, Inr b) \<Rightarrow> \<lparr>ok = b, printed = out, output_file = sv\<rparr>)"





subsection \<open>Invariant of the builder's store\<close>

text \<open>
  Predicates used in the proofs only. \<open>read_node\<close> is the function that \<open>reify\<close> maps
  over a cell, \<open>flat\<close> the pre-order listing of the value behind a reference. All
  references held by the nodes of \<open>ns\<close> lie strictly between \<open>lo\<close> and \<open>hi\<close> when
  \<open>ptrs_in ns lo hi\<close>; a range of cells is \<open>closed\<close> when every reference in it points
  forward and stays inside the range. \<open>spine h F ps\<close> says that the stack \<open>ps\<close> runs down the
  last node of each list: each entry is the children list of the last node of the entry
  below it, and everything hanging off the other nodes is closed.
\<close>

definition read_node :: "(nat \<Rightarrow> outline list option) \<Rightarrow> node \<Rightarrow> outline option" where
  "read_node r nd =
     (case children nd of
        None \<Rightarrow> Some (Outline (node.title nd) (node.page nd) None)
      | Some c \<Rightarrow> map_option (\<lambda>ys. Outline (node.title nd) (node.page nd) (Some ys)) (r c))"

definition flat :: "nat \<Rightarrow> (nat \<Rightarrow> node list) \<Rightarrow> nat \<Rightarrow> (string \<times> int) list option" where
  "flat n h a = map_option preorder (reify n h a)"

definition ptrs_in :: "node list \<Rightarrow> nat \<Rightarrow> nat \<Rightarrow> bool" where
  "ptrs_in ns lo hi = (\<forall>nd \<in> set ns. \<forall>c. children nd = Some c \<longrightarrow> lo < c \<and> c < hi)"

definition closed :: "(nat \<Rightarrow> node list) \<Rightarrow> nat \<Rightarrow> nat \<Rightarrow> bool" where
  "closed h lo hi = (\<forall>a. lo \<le> a \<and> a < hi \<longrightarrow> ptrs_in (h a) a hi)"

fun spine :: "(nat \<Rightarrow> node list) \<Rightarrow> nat \<Rightarrow> nat list \<Rightarrow> bool" where
  "spine h F [] = False"
| "spine h F [t] = (t < F \<and> closed h t F)"
| "spine h F (a # b # rest) =
     (a < b \<and> h a \<noteq> [] \<and> children (last (h a)) = Some b \<and> ptrs_in (butlast (h a)) a b
      \<and> closed h (Suc a) b \<and> spine h F (b # rest))"

text \<open>
  \<open>entry\<close> is what a node keeps of a record. \<open>mid\<close> holds between the adjustment of the
  stack and the append, \<open>inv\<close> between two iterations: there the top list is empty or ends in
  a node without children.
\<close>

definition entry :: "bookmark \<Rightarrow> string \<times> int" where
  "entry b = (bookmark.title b, bookmark.page b)"

definition mid :: "builder \<Rightarrow> (string \<times> int) list \<Rightarrow> bool" where
  "mid st done =
     (parents st \<noteq> [] \<and> hd (parents st) = root
      \<and> spine (cells st) (fresh st) (parents st)
      \<and> (\<forall>n. fresh st \<le> n \<longrightarrow> flat n (cells st) root = Some done))"

definition inv :: "builder \<Rightarrow> (string \<times> int) list \<Rightarrow> bool" where
  "inv st done =
     (mid st done
      \<and> (cells st (last (parents st)) = []
         \<or> children (last (cells st (last (parents st)))) = None))"

section \<open>Properties of the tree builder\<close>

lemmas builder_defs =
  step_def adjust_def descend_def ascend_def attach_def top_def new_node_def

lemma pops_eq:
  "pops n ps = (if n \<le> length ps then Inr (take (length ps - n) ps) else Inl IndexError)"
proof (induction n arbitrary: ps)
  case 0
  show ?case by simp
next
  case (Suc n)
  show ?case
  proof (cases ps rule: rev_cases)
    case Nil
    then show ?thesis by simp
  next
    case (snoc qs q)
    then show ?thesis using Suc [of qs] by simp
  qed
qed

text \<open>
  C1. The claim expects the forest \<open>[A{children:[B]}, C]\<close> for the records with levels
  1, 3, 1. The builder does not return a forest there: the step from level 1 to level 3
  pushes one list, the step back from 3 to 1 pops two, which removes the root list from
  the stack, and \<^verbatim>\<open>parents[-1]\<close> raises \<open>IndexError\<close>. With levels 1, 2, 1 the same
  records give the forest the claim describes.
\<close>

theorem C1_levels_1_3_1_raise_IndexError:
  "create_bookmark_tree
     [\<lparr>level = 1, title = ''A'', page = pa\<rparr>,
      \<lparr>level = 3, title = ''B'', page = pb\<rparr>,
      \<lparr>level = 1, title = ''C'', page = pc\<rparr>] = Inl IndexError
   \<and> create_bookmark_tree
     [\<lparr>level = 1, title = ''A'', page = pa\<rparr>,
      \<lparr>level = 2, title = ''B'', page = pb\<rparr>,
      \<lparr>level = 1, title = ''C'', page = pc\<rparr>]
     = Inr [Outline ''A'' pa (Some [Outline ''B'' pb None]), Outline ''C'' pc None]"
  by (simp add: create_bookmark_tree_def init_def root_def builder_defs numeral_2_eq_2)

text \<open>
  C2. When the level of a record is below \<open>prev_level\<close>, the ascend step pops exactly
  \<open>prev_level - level\<close> entries if the stack has that many, and raises \<open>IndexError\<close> from
  \<^verbatim>\<open>pop\<close> otherwise; nothing keeps the root list on the stack. When the difference is at
  least the stack depth the iteration ends in \<open>IndexError\<close>: with equality the pops succeed,
  the stack is left empty and the append to its top is out of bounds. The records with
  levels 2, 1 are such an input.
\<close>

theorem C2_ascend_pops_without_guard:
  "(level b < prev_level st \<longrightarrow>
      adjust (level b) st
        = (if prev_level st - level b \<le> length (parents st)
           then Inr (st\<lparr>parents :=
                  take (length (parents st) - (prev_level st - level b)) (parents st)\<rparr>)
           else Inl IndexError))
   \<and> (level b < prev_level st \<and> prev_level st - level b = length (parents st) \<longrightarrow>
        adjust (level b) st = Inr (st\<lparr>parents := []\<rparr>) \<and> attach b (st\<lparr>parents := []\<rparr>) = Inl IndexError)
   \<and> (level b < prev_level st \<and> length (parents st) \<le> prev_level st - level b \<longrightarrow>
        step b st = Inl IndexError)
   \<and> create_bookmark_tree
        [\<lparr>level = 2, title = ta, page = pa\<rparr>, \<lparr>level = 1, title = tb, page = pb\<rparr>]
        = Inl IndexError"
proof -
  have "create_bookmark_tree
        [\<lparr>level = 2, title = ta, page = pa\<rparr>, \<lparr>level = 1, title = tb, page = pb\<rparr>]
        = Inl IndexError"
    by (simp add: create_bookmark_tree_def init_def root_def builder_defs)
  moreover have "level b < prev_level st \<longrightarrow>
      adjust (level b) st
        = (if prev_level st - level b \<le> length (parents st)
           then Inr (st\<lparr>parents :=
                  take (length (parents st) - (prev_level st - level b)) (parents st)\<rparr>)
           else Inl IndexError)"
    by (simp add: adjust_def ascend_def pops_eq)
  moreover have "level b < prev_level st \<and> prev_level st - level b = length (parents st) \<longrightarrow>
        adjust (level b) st = Inr (st\<lparr>parents := []\<rparr>) \<and> attach b (st\<lparr>parents := []\<rparr>) = Inl IndexError"
    by (simp add: adjust_def ascend_def attach_def top_def pops_eq)
  moreover have "level b < prev_level st \<and> length (parents st) \<le> prev_level st - level b \<longrightarrow>
        step b st = Inl IndexError"
    by (auto simp add: step_def adjust_def ascend_def attach_def top_def pops_eq)
  ultimately show ?thesis
    by (simp only: simp_thms)
qed

theorem C2_ascend_pops_without_guard_witness:
  "level \<lparr>level = 1, title = ''B'', page = 1\<rparr>
     < prev_level \<lparr>cells = (\<lambda>_. [])(0 := [\<lparr>node.title = ''A'', page = 0, children = None\<rparr>]),
                   fresh = 1, parents = [0], prev_level = 2\<rparr>
   \<and> prev_level \<lparr>cells = (\<lambda>_. [])(0 := [\<lparr>node.title = ''A'', page = 0, children = None\<rparr>]),
                   fresh = 1, parents = [0], prev_level = 2\<rparr>
       - level \<lparr>level = 1, title = ''B'', page = 1\<rparr>
     = length (parents \<lparr>cells = (\<lambda>_. [])(0 := [\<lparr>node.title = ''A'', page = 0, children = None\<rparr>]),
                   fresh = 1, parents = [0], prev_level = 2\<rparr>)
   \<and> adjust (level \<lparr>level = 1, title = ''B'', page = 1\<rparr>)
        \<lparr>cells = (\<lambda>_. [])(0 := [\<lparr>node.title = ''A'', page = 0, children = None\<rparr>]),
         fresh = 1, parents = [0], prev_level = 2\<rparr>
     = Inr \<lparr>cells = (\<lambda>_. [])(0 := [\<lparr>node.title = ''A'', page = 0, children = None\<rparr>]),
            fresh = 1, parents = [], prev_level = 2\<rparr>
   \<and> step \<lparr>level = 1, title = ''B'', page = 1\<rparr>
        \<lparr>cells = (\<lambda>_. [])(0 := [\<lparr>node.title = ''A'', page = 0, children = None\<rparr>]),
         fresh = 1, parents = [0], prev_level = 2\<rparr> = Inl IndexError"
  using C2_ascend_pops_without_guard
    [of "\<lparr>level = 1, title = ''B'', page = 1\<rparr>"
        "\<lparr>cells = (\<lambda>_. [])(0 := [\<lparr>node.title = ''A'', page = 0, children = None\<rparr>]),
         fresh = 1, parents = [0], prev_level = 2\<rparr>"]
  by simp

text \<open>
  C3. For the records A, B, C, D with levels 1, 2, 2, 1 the builder returns the forest
  \<open>[A{children:[B, C]}, D]\<close>: B and C, in input order, are the children of A, and D is a
  second root. B, C and D have no \<^verbatim>\<open>'children'\<close> key.
\<close>

theorem C3_levels_1_2_2_1_forest:
  "create_bookmark_tree
     [\<lparr>level = 1, title = ''A'', page = pa\<rparr>,
      \<lparr>level = 2, title = ''B'', page = pb\<rparr>,
      \<lparr>level = 2, title = ''C'', page = pc\<rparr>,
      \<lparr>level = 1, title = ''D'', page = pd\<rparr>]
   = Inr [Outline ''A'' pa (Some [Outline ''B'' pb None, Outline ''C'' pc None]),
          Outline ''D'' pd None]"
  by (simp add: create_bookmark_tree_def init_def root_def builder_defs numeral_2_eq_2)

text \<open>
  C4. When the level of a record exceeds \<open>prev_level\<close> and the list on top of the stack is
  empty, the descend branch leaves the builder as it is (no list is created, none is
  pushed) and the node of the record, with its title and page and no \<^verbatim>\<open>'children'\<close> key,
  becomes the only element of that same list. In particular the first record of any
  input, whatever its level, is appended to the root list, and the loop goes on from
  there.
\<close>

theorem C4_descend_on_empty_top:
  "(parents st \<noteq> [] \<and> level b > prev_level st \<and> cells st (last (parents st)) = [] \<longrightarrow>
      descend st = Inr st
      \<and> step b st
          = Inr (st\<lparr>cells := (cells st)
                       (last (parents st) :=
                          [\<lparr>node.title = bookmark.title b, page = bookmark.page b,
                            children = None\<rparr>]),
                    prev_level := level b\<rparr>))
   \<and> build (b # bs) init
       = build bs
           \<lparr>cells = (\<lambda>_. [])
              (root := [\<lparr>node.title = bookmark.title b, page = bookmark.page b,
                         children = None\<rparr>]),
            fresh = Suc root, parents = [root], prev_level = level b\<rparr>"
  by (simp add: step_def adjust_def descend_def attach_def top_def init_def new_node_def)

theorem C4_descend_on_empty_top_witness:
  "parents init \<noteq> []
   \<and> level \<lparr>level = 5, title = ''A'', page = 7\<rparr> > prev_level init
   \<and> cells init (last (parents init)) = []
   \<and> descend init = Inr init
   \<and> step \<lparr>level = 5, title = ''A'', page = 7\<rparr> init
       = Inr \<lparr>cells = (\<lambda>_. [])(0 := [\<lparr>node.title = ''A'', page = 7, children = None\<rparr>]),
              fresh = 1, parents = [0], prev_level = 5\<rparr>"
  using C4_descend_on_empty_top [of init "\<lparr>level = 5, title = ''A'', page = 7\<rparr>"]
  by (simp add: init_def root_def)

subsection \<open>The forest lists the records in input order\<close>

lemma reify_Suc: "reify (Suc n) h a = those (map (read_node (reify n h)) (h a))"
  by (simp add: read_node_def cong: map_cong)

declare reify.simps(2) [simp del]

lemma preorder_snoc: "preorder (xs @ [y]) = preorder xs @ preorder_node y"
  by (simp add: preorder_def)

lemma nodes_frame:
  assumes "\<And>c. lo < c \<Longrightarrow> c < hi \<Longrightarrow> r' c = r c" and "ptrs_in ns lo hi"
  shows "map (read_node r') ns = map (read_node r) ns"
  using assms by (auto simp: read_node_def ptrs_in_def split: option.splits)

lemma reify_frame:
  assumes "closed h lo hi" and "\<And>x. lo \<le> x \<Longrightarrow> x < hi \<Longrightarrow> h' x = h x"
  shows "lo \<le> a \<Longrightarrow> a < hi \<Longrightarrow> reify n h' a = reify n h a"
proof (induction n arbitrary: a)
  case 0
  show ?case by simp
next
  case (Suc n)
  from assms(1) Suc.prems have p: "ptrs_in (h a) a hi" by (simp add: closed_def)
  have "map (read_node (reify n h')) (h a) = map (read_node (reify n h)) (h a)"
  proof (rule nodes_frame [OF _ p])
    fix c assume "a < c" "c < hi"
    with Suc.prems show "reify n h' c = reify n h c" by (intro Suc.IH) auto
  qed
  with assms(2) [of a] Suc.prems show ?case by (simp only: reify_Suc)
qed

lemma closed_mono: "closed h lo hi \<Longrightarrow> lo \<le> lo' \<Longrightarrow> closed h lo' hi"
  by (simp add: closed_def)

lemma closed_cong:
  "closed h lo hi \<Longrightarrow> (\<And>x. lo \<le> x \<Longrightarrow> x < hi \<Longrightarrow> h' x = h x) \<Longrightarrow> closed h' lo hi"
  by (simp add: closed_def)

lemma spine_hd_le_last: "spine h F ps \<Longrightarrow> hd ps \<le> last ps"
  by (induction h F ps rule: spine.induct) auto

lemma spine_last_less: "spine h F ps \<Longrightarrow> last ps < F"
  by (induction h F ps rule: spine.induct) auto

lemma those_snoc:
  "those (xs @ [y]) = (case y of None \<Rightarrow> None | Some v \<Rightarrow> map_option (\<lambda>l. l @ [v]) (those xs))"
  by (induction xs) (auto split: option.splits simp: option.map_comp comp_def)

lemma flat_Suc_snoc:
  assumes "h a = pre @ [l]"
  shows "flat (Suc n) h a =
     (case those (map (read_node (reify n h)) pre) of
        None \<Rightarrow> None
      | Some ys \<Rightarrow>
          (case children l of
             None \<Rightarrow> Some (preorder ys @ [(node.title l, node.page l)])
           | Some c \<Rightarrow> map_option (\<lambda>p. preorder ys @ (node.title l, node.page l) # p) (flat n h c)))"
proof (cases "those (map (read_node (reify n h)) pre)")
  case None
  then show ?thesis
    by (simp add: flat_def reify_Suc assms those_snoc split: option.splits)
next
  case (Some ys)
  show ?thesis
  proof (cases "children l")
    case None
    with Some show ?thesis
      by (simp add: flat_def reify_Suc assms those_snoc read_node_def preorder_snoc)
  next
    case c: (Some c)
    show ?thesis
    proof (cases "reify n h c")
      case None
      with Some c show ?thesis
        by (simp add: flat_def reify_Suc assms those_snoc read_node_def)
    next
      case kids: (Some kids)
      with Some c show ?thesis
        by (simp add: flat_def reify_Suc assms those_snoc read_node_def preorder_snoc)
          (simp add: preorder_def)
    qed
  qed
qed

lemma ptrs_in_snoc: "ptrs_in (ns @ [x]) lo hi = (ptrs_in ns lo hi \<and> ptrs_in [x] lo hi)"
  by (auto simp: ptrs_in_def)

lemma ptrs_in_leaf: "children x = None \<Longrightarrow> ptrs_in [x] lo hi"
  by (simp add: ptrs_in_def)

lemma ptrs_in_butlast: "ptrs_in ns lo hi \<Longrightarrow> ptrs_in (butlast ns) lo hi"
  by (auto simp: ptrs_in_def dest: in_set_butlastD)

lemma spine_append:
  assumes "children x = None"
  shows "spine h F ps \<Longrightarrow>
     spine (h(last ps := h (last ps) @ [x])) F ps
     \<and> (\<forall>n. flat n (h(last ps := h (last ps) @ [x])) (hd ps)
             = map_option (\<lambda>p. p @ [(node.title x, node.page x)]) (flat n h (hd ps)))"
proof (induction h F ps rule: spine.induct)
  case (1 h F)
  then show ?case by simp
next
  case (2 h F t)
  let ?h = "h(t := h t @ [x])"
  from 2 have tF: "t < F" and cl: "closed h t F" by simp_all
  have cl': "closed h (Suc t) F" using cl by (rule closed_mono) simp
  have "closed ?h t F"
    using cl assms by (auto simp: closed_def ptrs_in_snoc ptrs_in_leaf)
  moreover have "flat n ?h t = map_option (\<lambda>p. p @ [(node.title x, node.page x)]) (flat n h t)" for n
  proof (cases n)
    case 0
    then show ?thesis by (simp add: flat_def)
  next
    case (Suc m)
    have fr: "reify m ?h c = reify m h c" if "t < c" "c < F" for c
      using that by (intro reify_frame [OF cl']) auto
    have p: "ptrs_in (h t) t F" using cl tF by (simp add: closed_def)
    have eq: "map (read_node (reify m ?h)) (h t) = map (read_node (reify m h)) (h t)"
      by (rule nodes_frame [OF fr p])
    have dec: "?h t = h t @ [x]" by simp
    show ?thesis
      unfolding Suc flat_Suc_snoc [of ?h t "h t" x, OF dec] eq
      by (simp add: flat_def reify_Suc assms split: option.splits)
  qed
  moreover have "last [t] = t" "hd [t] = t" by simp_all
  ultimately show ?case using tF by (simp only: spine.simps simp_thms)
next
  case (3 h F a b rest)
  define t where "t = last (b # rest)"
  define h' where "h' = h(t := h t @ [x])"
  from "3.prems" have ab: "a < b" and ne: "h a \<noteq> []" and lst: "children (last (h a)) = Some b"
    and bl: "ptrs_in (butlast (h a)) a b" and cl: "closed h (Suc a) b" and sp: "spine h F (b # rest)"
    by simp_all
  from spine_hd_le_last [OF sp] have bt: "b \<le> t" by (simp add: t_def)
  have hb: "hd (b # rest) = b" by simp
  from "3.IH" [OF sp] have sp': "spine h' F (b # rest)"
    and fl: "\<And>n. flat n h' b = map_option (\<lambda>p. p @ [(node.title x, node.page x)]) (flat n h b)"
    unfolding hb t_def [symmetric] h'_def [symmetric] by blast+
  have agree: "h' c = h c" if "c < b" for c using that bt by (simp add: h'_def)
  have ha: "h' a = h a" using ab by (rule agree)
  have cl': "closed h' (Suc a) b" using cl by (rule closed_cong) (simp add: agree)
  have "spine h' F (a # b # rest)"
    using ab ne lst bl cl' sp' ha by simp
  moreover have "flat n h' a = map_option (\<lambda>p. p @ [(node.title x, node.page x)]) (flat n h a)" for n
  proof (cases n)
    case 0
    then show ?thesis by (simp add: flat_def)
  next
    case (Suc m)
    have fr: "reify m h' c = reify m h c" if "a < c" "c < b" for c
      using that by (intro reify_frame [OF cl]) (auto simp: agree)
    have eq: "map (read_node (reify m h')) (butlast (h a)) = map (read_node (reify m h)) (butlast (h a))"
      by (rule nodes_frame [OF fr bl])
    have dec: "h a = butlast (h a) @ [last (h a)]" using ne by simp
    have dec': "h' a = butlast (h a) @ [last (h a)]" using ne ha by simp
    show ?thesis
      unfolding Suc flat_Suc_snoc [of h a "butlast (h a)" "last (h a)", OF dec]
        flat_Suc_snoc [of h' a "butlast (h a)" "last (h a)", OF dec'] eq
      by (simp add: lst fl option.map_comp comp_def split: option.splits)
  qed
  moreover have "last (a # b # rest) = t" "hd (a # b # rest) = a" by (simp_all add: t_def)
  ultimately show ?case unfolding h'_def by (simp only: simp_thms)
qed

lemma spine_collapse: "spine h F (a # rest) \<Longrightarrow> a < F \<and> closed h a F"
proof (induction rest arbitrary: a)
  case Nil
  then show ?case by simp
next
  case (Cons b rest)
  from Cons.prems have ab: "a < b" and ne: "h a \<noteq> []" and lst: "children (last (h a)) = Some b"
    and bl: "ptrs_in (butlast (h a)) a b" and cl: "closed h (Suc a) b" and sp: "spine h F (b # rest)"
    by simp_all
  from Cons.IH [OF sp] have bF: "b < F" and clb: "closed h b F" by simp_all
  have "ptrs_in (butlast (h a) @ [last (h a)]) a F"
    using bl lst ab bF unfolding ptrs_in_snoc by (auto simp: ptrs_in_def)
  then have pa: "ptrs_in (h a) a F" using ne by simp
  have "ptrs_in (h c) c F" if "a \<le> c" "c < F" for c
  proof -
    show ?thesis
    proof (cases "c = a")
      case True
      then show ?thesis using pa by simp
    next
      case False
      show ?thesis
      proof (cases "c < b")
        case True
        with cl False that have "ptrs_in (h c) c b" by (simp add: closed_def)
        then show ?thesis using bF by (auto simp: ptrs_in_def)
      next
        case False
        with clb that show ?thesis by (simp add: closed_def)
      qed
    qed
  qed
  then show ?case using ab bF by (simp add: closed_def)
qed

lemma spine_take: "spine h F ps \<Longrightarrow> 0 < k \<Longrightarrow> spine h F (take k ps)"
proof (induction h F ps arbitrary: k rule: spine.induct)
  case (1 h F)
  then show ?case by simp
next
  case (2 h F t)
  then show ?case by (cases k) simp_all
next
  case (3 h F a b rest)
  show ?case
  proof (cases k)
    case 0
    with "3.prems" show ?thesis by simp
  next
    case (Suc j)
    show ?thesis
    proof (cases j)
      case 0
      with Suc spine_collapse [OF "3.prems"(1)] show ?thesis by simp
    next
      case (Suc i)
      from "3.prems" have sp: "spine h F (b # rest)" by simp
      from "3.IH" [OF sp, of j] Suc have "spine h F (b # take i rest)" by simp
      with "3.prems" \<open>k = Suc j\<close> Suc show ?thesis by simp
    qed
  qed
qed

lemma spine_push:
  "spine h F ps \<Longrightarrow> h (last ps) \<noteq> [] \<Longrightarrow> children (last (h (last ps))) = None \<Longrightarrow>
     spine (h(last ps := butlast (h (last ps)) @ [(last (h (last ps)))\<lparr>children := Some F\<rparr>],
              F := [])) (Suc F) (ps @ [F])
     \<and> (\<forall>n. Suc F - hd ps \<le> n \<longrightarrow>
           flat n (h(last ps := butlast (h (last ps)) @ [(last (h (last ps)))\<lparr>children := Some F\<rparr>],
                     F := [])) (hd ps) = flat n h (hd ps))"
proof (induction h F ps rule: spine.induct)
  case (1 h F)
  then show ?case by simp
next
  case (2 h F t)
  define l where "l = last (h t)"
  define h' where "h' = h(t := butlast (h t) @ [l\<lparr>children := Some F\<rparr>], F := [])"
  from 2 have tF: "t < F" and cl: "closed h t F" and ne: "h t \<noteq> []" and leaf: "children l = None"
    by (simp_all add: l_def)
  have cl': "closed h (Suc t) F" using cl by (rule closed_mono) simp
  have agree: "h' c = h c" if "c \<noteq> t" "c \<noteq> F" for c using that by (simp add: h'_def)
  have ht: "h' t = butlast (h t) @ [l\<lparr>children := Some F\<rparr>]" using tF by (simp add: h'_def)
  have hF: "h' F = []" by (simp add: h'_def)
  have p: "ptrs_in (h t) t F" using cl tF by (simp add: closed_def)
  have pb: "ptrs_in (butlast (h t)) t F" using p by (rule ptrs_in_butlast)
  have c1: "closed h' (Suc t) F" using cl' by (rule closed_cong) (simp add: agree)
  have c2: "closed h' F (Suc F)" by (auto simp: closed_def hF ptrs_in_def le_less_Suc_eq)
  have sp: "spine h' (Suc F) [t, F]"
    using tF ht pb c1 c2 by simp
  have fl: "flat n h' t = flat n h t" if "Suc F - t \<le> n" for n
  proof -
    from that tF obtain m where n: "n = Suc (Suc m)"
      by (metis Suc_diff_le Suc_le_D diff_is_0_eq leD less_imp_le_nat not_less_eq_eq zero_less_diff)
    have fr: "reify (Suc m) h' c = reify (Suc m) h c" if "t < c" "c < F" for c
      using that by (intro reify_frame [OF cl']) (auto simp: agree)
    have eq: "map (read_node (reify (Suc m) h')) (butlast (h t))
            = map (read_node (reify (Suc m) h)) (butlast (h t))"
      by (rule nodes_frame [OF fr pb])
    have dec: "h t = butlast (h t) @ [l]" using ne by (simp add: l_def)
    have fF: "flat (Suc m) h' F = Some []" by (simp add: flat_def reify_Suc hF preorder_def)
    show ?thesis
      unfolding n flat_Suc_snoc [of h t "butlast (h t)" l, OF dec]
        flat_Suc_snoc [of h' t "butlast (h t)" "l\<lparr>children := Some F\<rparr>", OF ht] eq
      by (simp add: leaf fF split: option.splits)
  qed
  have "last [t] = t" "hd [t] = t" "[t] @ [F] = [t, F]" by simp_all
  then show ?case using sp fl unfolding h'_def l_def by (simp only: simp_thms) blast
next
  case (3 h F a b rest)
  define t where "t = last (b # rest)"
  define l where "l = last (h t)"
  define h' where "h' = h(t := butlast (h t) @ [l\<lparr>children := Some F\<rparr>], F := [])"
  from "3.prems" have ab: "a < b" and ne: "h a \<noteq> []" and lst: "children (last (h a)) = Some b"
    and bl: "ptrs_in (butlast (h a)) a b" and cl: "closed h (Suc a) b" and sp: "spine h F (b # rest)"
    and net: "h t \<noteq> []" and leaf: "children l = None"
    by (simp_all add: t_def l_def)
  from spine_hd_le_last [OF sp] have bt: "b \<le> t" by (simp add: t_def)
  from spine_last_less [OF sp] have tF: "t < F" by (simp add: t_def)
  have hb: "hd (b # rest) = b" by simp
  from net leaf have pre: "h (last (b # rest)) \<noteq> []" "children (last (h (last (b # rest)))) = None"
    by (simp_all add: t_def l_def)
  from "3.IH" [OF sp pre] have sp': "spine h' (Suc F) ((b # rest) @ [F])"
    and fl: "\<And>n. Suc F - b \<le> n \<Longrightarrow> flat n h' b = flat n h b"
    unfolding hb t_def [symmetric] l_def [symmetric] h'_def [symmetric] by blast+
  have agree: "h' c = h c" if "c < b" for c using that bt tF by (simp add: h'_def)
  have ha: "h' a = h a" using ab by (rule agree)
  have cl': "closed h' (Suc a) b" using cl by (rule closed_cong) (simp add: agree)
  have sp2: "spine h' (Suc F) (a # b # rest @ [F])"
    using ab ne lst bl cl' sp' ha by simp
  have fl2: "flat n h' a = flat n h a" if "Suc F - a \<le> n" for n
  proof -
    from that ab bt tF obtain m where n: "n = Suc m" and m: "Suc F - b \<le> m"
      by (cases n) auto
    have fr: "reify m h' c = reify m h c" if "a < c" "c < b" for c
      using that by (intro reify_frame [OF cl]) (auto simp: agree)
    have eq: "map (read_node (reify m h')) (butlast (h a)) = map (read_node (reify m h)) (butlast (h a))"
      by (rule nodes_frame [OF fr bl])
    have dec: "h a = butlast (h a) @ [last (h a)]" using ne by simp
    have dec': "h' a = butlast (h a) @ [last (h a)]" using ne ha by simp
    show ?thesis
      unfolding n flat_Suc_snoc [of h a "butlast (h a)" "last (h a)", OF dec]
        flat_Suc_snoc [of h' a "butlast (h a)" "last (h a)", OF dec'] eq
      by (simp add: lst fl [OF m] split: option.splits)
  qed
  have "last (a # b # rest) = t" "hd (a # b # rest) = a" "(a # b # rest) @ [F] = a # b # rest @ [F]"
    by (simp_all add: t_def)
  then show ?case using sp2 fl2 unfolding h'_def l_def by (simp only: simp_thms) blast
qed

lemma inv_init: "inv init []"
proof -
  have "flat n (\<lambda>_. []) 0 = Some []" if "Suc 0 \<le> n" for n
    using that by (cases n) (simp_all add: flat_def reify_Suc preorder_def)
  then show ?thesis
    by (simp add: inv_def mid_def init_def root_def closed_def ptrs_in_def)
qed

lemma descend_mid:
  assumes "inv st d" and "descend st = Inr st1"
  shows "mid st1 d"
proof -
  let ?h = "cells st" and ?F = "fresh st" and ?ps = "parents st"
  let ?t = "last ?ps"
  from assms(1) have m: "mid st d"
    and lf: "?h ?t = [] \<or> children (last (?h ?t)) = None"
    by (simp_all add: inv_def)
  from m have ne: "?ps \<noteq> []" and hd: "hd ?ps = root" and sp: "spine ?h ?F ?ps"
    and fl: "\<And>n. ?F \<le> n \<Longrightarrow> flat n ?h root = Some d"
    by (simp_all add: mid_def)
  show ?thesis
  proof (cases "?h ?t = []")
    case True
    with assms(2) ne have "st1 = st" by (simp add: descend_def top_def)
    with m show ?thesis by simp
  next
    case False
    with lf have leaf: "children (last (?h ?t)) = None" by simp
    define h' where "h' = ?h(?t := butlast (?h ?t) @ [(last (?h ?t))\<lparr>children := Some ?F\<rparr>], ?F := [])"
    from assms(2) ne False leaf
    have st1: "st1 = st\<lparr>cells := h', fresh := Suc ?F, parents := ?ps @ [?F]\<rparr>"
      by (simp add: descend_def top_def Let_def h'_def)
    from spine_push [OF sp False leaf]
    have sp': "spine h' (Suc ?F) (?ps @ [?F])"
      and fl': "\<And>n. Suc ?F - hd ?ps \<le> n \<Longrightarrow> flat n h' (hd ?ps) = flat n ?h (hd ?ps)"
      unfolding h'_def [symmetric] by blast+
    have "flat n h' root = Some d" if "Suc ?F \<le> n" for n
      using fl' [of n] fl [of n] that by (simp add: hd)
    with sp' ne hd show ?thesis by (simp add: mid_def st1)
  qed
qed

lemma ascend_mid:
  assumes "inv st d" and "ascend k st = Inr st1" and "parents st1 \<noteq> []"
  shows "mid st1 d"
proof -
  from assms(1) have m: "mid st d" by (simp add: inv_def)
  from assms(2) have st1: "st1 = st\<lparr>parents := take (length (parents st) - k) (parents st)\<rparr>"
    by (auto simp: ascend_def pops_eq split: if_splits)
  with assms(3) have pos: "0 < length (parents st) - k" by (cases "length (parents st) - k") auto
  from m spine_take [OF _ pos] hd_take [OF pos] assms(3) show ?thesis
    by (simp add: mid_def st1)
qed

lemma adjust_mid:
  assumes "inv st d" and "adjust lv st = Inr st1" and "parents st1 \<noteq> []"
  shows "mid st1 d"
proof (cases "lv > prev_level st")
  case True
  with assms(2) have "descend st = Inr st1" by (simp add: adjust_def)
  with assms(1) show ?thesis by (rule descend_mid)
next
  case False
  show ?thesis
  proof (cases "lv < prev_level st")
    case True
    with False assms(2) have "ascend (prev_level st - lv) st = Inr st1" by (simp add: adjust_def)
    with assms(1) show ?thesis using assms(3) by (rule ascend_mid)
  next
    case False
    with \<open>\<not> lv > prev_level st\<close> assms(2) have "st1 = st" by (simp add: adjust_def)
    with assms(1) show ?thesis by (simp add: inv_def)
  qed
qed

lemma attach_inv:
  assumes "mid st d" and "attach b st = Inr st2"
  shows "inv st2 (d @ [entry b])"
proof -
  let ?h = "cells st" and ?ps = "parents st"
  let ?t = "last ?ps"
  from assms(1) have ne: "?ps \<noteq> []" and hd: "hd ?ps = root" and sp: "spine ?h (fresh st) ?ps"
    and fl: "\<And>n. fresh st \<le> n \<Longrightarrow> flat n ?h root = Some d"
    by (simp_all add: mid_def)
  define h' where "h' = ?h(?t := ?h ?t @ [new_node b])"
  from assms(2) ne have st2: "st2 = st\<lparr>cells := h', prev_level := level b\<rparr>"
    by (simp add: attach_def top_def h'_def)
  have leaf: "children (new_node b) = None" by (simp add: new_node_def)
  from spine_append [OF leaf sp]
  have sp': "spine h' (fresh st) ?ps"
    and fl': "\<And>n. flat n h' (hd ?ps)
         = map_option (\<lambda>p. p @ [(node.title (new_node b), node.page (new_node b))]) (flat n ?h (hd ?ps))"
    unfolding h'_def [symmetric] by blast+
  have "flat n h' root = Some (d @ [entry b])" if "fresh st \<le> n" for n
    using fl' [of n] fl [OF that] by (simp add: hd entry_def new_node_def)
  moreover have "children (last (h' ?t)) = None" by (simp add: h'_def leaf)
  ultimately show ?thesis using sp' ne hd by (simp add: inv_def mid_def st2)
qed

lemma step_inv:
  assumes "inv st d" and "step b st = Inr st'"
  shows "inv st' (d @ [entry b])"
proof -
  from assms(2) obtain st1 where a: "adjust (level b) st = Inr st1" and b: "attach b st1 = Inr st'"
    by (auto simp: step_def split: sum.splits)
  from b have "parents st1 \<noteq> []" by (auto simp: attach_def top_def split: if_splits)
  with assms(1) a have "mid st1 d" by (rule adjust_mid)
  then show ?thesis using b by (rule attach_inv)
qed

lemma build_inv:
  "inv st d \<Longrightarrow> build bs st = Inr st' \<Longrightarrow> inv st' (d @ map entry bs)"
proof (induction bs arbitrary: st d)
  case Nil
  then show ?case by simp
next
  case (Cons b bs)
  from Cons.prems(2) obtain st1 where s: "step b st = Inr st1" and r: "build bs st1 = Inr st'"
    by (auto split: sum.splits)
  from step_inv [OF Cons.prems(1) s] have "inv st1 (d @ [entry b])" .
  from Cons.IH [OF this r] show ?case by simp
qed

lemma build_reify:
  assumes "build bs init = Inr st"
  shows "\<exists>forest. reify (fresh st) (cells st) root = Some forest \<and> preorder forest = map entry bs"
proof -
  from build_inv [OF inv_init assms] have "inv st (map entry bs)" by simp
  then have "flat (fresh st) (cells st) root = Some (map entry bs)"
    by (simp add: inv_def mid_def)
  then show ?thesis by (auto simp: flat_def)
qed

lemma pops_error: "pops n ps = Inl e \<Longrightarrow> e = IndexError"
  by (simp add: pops_eq split: if_splits)

lemma step_error: "step b st = Inl e \<Longrightarrow> e = IndexError"
  by (auto simp: step_def adjust_def descend_def ascend_def attach_def top_def Let_def
      dest: pops_error split: sum.splits if_splits option.splits)

lemma build_error: "build bs st = Inl e \<Longrightarrow> e = IndexError"
  by (induction bs arbitrary: st) (auto split: sum.splits dest: step_error)

lemma create_bookmark_tree_not_cyclic: "create_bookmark_tree bs \<noteq> Inl CyclicStructure"
proof (cases "build bs init")
  case (Inl e)
  with build_error [OF Inl] show ?thesis by (simp add: create_bookmark_tree_def)
next
  case (Inr st)
  with build_reify [OF Inr] show ?thesis by (auto simp: create_bookmark_tree_def)
qed

lemma create_bookmark_tree_preorder:
  "create_bookmark_tree bs = Inr forest \<Longrightarrow> preorder forest = map entry bs"
  using build_reify [of bs]
  by (auto simp: create_bookmark_tree_def split: sum.splits option.splits)

text \<open>
  C10. Whenever \<open>create_bookmark_tree\<close> returns a forest, the pre-order traversal of the
  forest is the list of the records' titles and pages, one node per record, in input
  order. A node has no level field. The loop finishing without an exception is all it
  takes for the forest to be returned.
\<close>

theorem C10_preorder_is_input_order:
  "(create_bookmark_tree bs = Inr forest \<longrightarrow> preorder forest = map entry bs)
   \<and> (build bs init = Inr st \<longrightarrow> (\<exists>f. create_bookmark_tree bs = Inr f))"
proof -
  have "build bs init = Inr st \<longrightarrow> (\<exists>f. create_bookmark_tree bs = Inr f)"
    using build_reify [of bs st] by (auto simp: create_bookmark_tree_def)
  then show ?thesis
    using create_bookmark_tree_preorder [of bs forest] by blast
qed

theorem C10_preorder_is_input_order_witness:
  "create_bookmark_tree
     [\<lparr>level = 1, title = ''A'', page = 0\<rparr>,
      \<lparr>level = 2, title = ''B'', page = 4\<rparr>,
      \<lparr>level = 1, title = ''C'', page = 9\<rparr>]
     = Inr [Outline ''A'' 0 (Some [Outline ''B'' 4 None]), Outline ''C'' 9 None]
   \<and> preorder [Outline ''A'' 0 (Some [Outline ''B'' 4 None]), Outline ''C'' 9 None]
     = map entry
         [\<lparr>level = 1, title = ''A'', page = 0\<rparr>,
          \<lparr>level = 2, title = ''B'', page = 4\<rparr>,
          \<lparr>level = 1, title = ''C'', page = 9\<rparr>]"
  using C10_preorder_is_input_order
    [of "[\<lparr>level = 1, title = ''A'', page = 0\<rparr>,
          \<lparr>level = 2, title = ''B'', page = 4\<rparr>,
          \<lparr>level = 1, title = ''C'', page = 9\<rparr>]"
        "[Outline ''A'' 0 (Some [Outline ''B'' 4 None]), Outline ''C'' 9 None]"]
  by (simp add: create_bookmark_tree_def init_def root_def builder_defs reify_Suc read_node_def
      numeral_2_eq_2)

section \<open>Properties of the parser\<close>

subsection \<open>The matcher accepts the lines of the pattern\<close>

lemma take_takeWhile_all:
  "n \<le> length (takeWhile P s) \<Longrightarrow> list_all P (take n s)"
proof (induction s arbitrary: n)
  case Nil
  then show ?case by simp
next
  case (Cons c cs)
  then show ?case by (cases n) (auto split: if_splits)
qed

lemma prefix_le_takeWhile:
  "list_all P p \<Longrightarrow> length p \<le> length (takeWhile P (p @ r))"
  by (induction p) auto

lemma greedy_iff:
  "(p, r) \<in> set (greedy P s) \<longleftrightarrow> s = p @ r \<and> p \<noteq> [] \<and> list_all P p"
proof
  assume "(p, r) \<in> set (greedy P s)"
  then obtain n where n: "1 \<le> n" "n \<le> length (takeWhile P s)" and p: "p = take n s" and r: "r = drop n s"
    by (auto simp: greedy_def)
  from n have "n \<le> length s" using length_takeWhile_le [of P s] by linarith
  with n p have "p \<noteq> []" by auto
  with p r take_takeWhile_all [OF n(2)] show "s = p @ r \<and> p \<noteq> [] \<and> list_all P p" by simp
next
  assume a: "s = p @ r \<and> p \<noteq> [] \<and> list_all P p"
  then have "length p \<le> length (takeWhile P s)" using prefix_le_takeWhile [of P p r] by simp
  moreover from a have "1 \<le> length p" by (cases p) auto
  moreover from a have "p = take (length p) s" "r = drop (length p) s" by simp_all
  ultimately show "(p, r) \<in> set (greedy P s)"
    unfolding greedy_def by (auto simp: image_iff intro!: bexI [of _ "length p"])
qed

lemma lazy_iff:
  "(p, r) \<in> set (lazy P s) \<longleftrightarrow> s = p @ r \<and> p \<noteq> [] \<and> list_all P p"
proof -
  have "set (lazy P s) = set (greedy P s)" by (simp add: lazy_def greedy_def)
  then show ?thesis by (simp add: greedy_iff)
qed

lemma first_of_nonempty:
  "x \<in> set xs \<Longrightarrow> (case xs of [] \<Rightarrow> None | m # _ \<Rightarrow> Some m) \<noteq> None"
  by (cases xs) auto

lemma re_match_shape: "re_match l = Some (g1, g2, g3) \<Longrightarrow> line_shape l g1 g2 g3"
proof -
  assume m: "re_match l = Some (g1, g2, g3)"
  let ?xs = "[(g1, g2, g3).
              (g1, r1) \<leftarrow> greedy is_digit l,
              (w1, r2) \<leftarrow> greedy is_space r1,
              (g2, r3) \<leftarrow> lazy is_dot r2,
              (w2, r4) \<leftarrow> greedy is_space r3,
              (g3, r5) \<leftarrow> greedy is_digit r4,
              at_end r5]"
  from m obtain rest where eq: "?xs = (g1, g2, g3) # rest"
    unfolding re_match_def by (cases ?xs) simp_all
  have "(g1, g2, g3) \<in> set ((g1, g2, g3) # rest)" by simp
  then have "(g1, g2, g3) \<in> set ?xs" unfolding eq .
  then obtain r1 w1 r2 r3 w2 r4 r5 where
    "(g1, r1) \<in> set (greedy is_digit l)" "(w1, r2) \<in> set (greedy is_space r1)"
    "(g2, r3) \<in> set (lazy is_dot r2)" "(w2, r4) \<in> set (greedy is_space r3)"
    "(g3, r5) \<in> set (greedy is_digit r4)" "at_end r5"
    by (auto split: if_splits)
  then show ?thesis
    unfolding greedy_iff lazy_iff line_shape_def by auto
qed

lemma shape_re_match: "line_shape l g1 g2 g3 \<Longrightarrow> re_match l \<noteq> None"
proof -
  assume "line_shape l g1 g2 g3"
  then obtain w1 w2 e where l: "l = g1 @ w1 @ g2 @ w2 @ g3 @ e"
    and s: "g1 \<noteq> []" "list_all is_digit g1" "w1 \<noteq> []" "list_all is_space w1"
       "g2 \<noteq> []" "list_all is_dot g2" "w2 \<noteq> []" "list_all is_space w2"
       "g3 \<noteq> []" "list_all is_digit g3" "at_end e"
    unfolding line_shape_def by blast
  let ?xs = "[(g1, g2, g3).
              (g1, r1) \<leftarrow> greedy is_digit l,
              (w1, r2) \<leftarrow> greedy is_space r1,
              (g2, r3) \<leftarrow> lazy is_dot r2,
              (w2, r4) \<leftarrow> greedy is_space r3,
              (g3, r5) \<leftarrow> greedy is_digit r4,
              at_end r5]"
  have 1: "(g1, w1 @ g2 @ w2 @ g3 @ e) \<in> set (greedy is_digit l)"
    and 2: "(w1, g2 @ w2 @ g3 @ e) \<in> set (greedy is_space (w1 @ g2 @ w2 @ g3 @ e))"
    and 3: "(g2, w2 @ g3 @ e) \<in> set (lazy is_dot (g2 @ w2 @ g3 @ e))"
    and 4: "(w2, g3 @ e) \<in> set (greedy is_space (w2 @ g3 @ e))"
    and 5: "(g3, e) \<in> set (greedy is_digit (g3 @ e))"
    using l s by (simp_all add: greedy_iff lazy_iff)
  have "(g1, g2, g3) \<in> set ?xs"
    using 1 2 3 4 5 s(11) by (fastforce)
  then show ?thesis unfolding re_match_def by (rule first_of_nonempty)
qed

lemma re_match_iff: "re_match l \<noteq> None \<longleftrightarrow> (\<exists>g1 g2 g3. line_shape l g1 g2 g3)"
  using re_match_shape shape_re_match by (metis option.exhaust prod_cases3)

subsection \<open>The loop over the lines\<close>

lemma parse_loop_eq:
  "parse_loop off lines bs out =
     (bs @ map (record_of off) (List.map_filter re_match (considered lines)),
      out @ map BadLineWarning (filter (\<lambda>l. re_match l = None) (considered lines)))"
proof (induction lines arbitrary: bs out)
  case Nil
  show ?case by (simp add: considered_def)
next
  case (Cons raw rest)
  show ?case
  proof (cases "strip raw = [] \<or> startswith_hash (strip raw)")
    case True
    then have "considered (raw # rest) = considered rest" by (auto simp: considered_def)
    with True Cons show ?thesis by (simp add: Let_def)
  next
    case False
    then have c: "considered (raw # rest) = strip raw # considered rest" by (simp add: considered_def)
    show ?thesis
    proof (cases "re_match (strip raw)")
      case None
      with False Cons c show ?thesis by (simp add: Let_def)
    next
      case (Some m)
      obtain g1 g2 g3 where m: "m = (g1, g2, g3)" by (cases m) auto
      with Some False Cons c show ?thesis
        by (simp add: Let_def record_of_def)
    qed
  qed
qed

lemma greedy_Nil: "takeWhile P s = [] \<Longrightarrow> greedy P s = []"
  by (simp add: greedy_def)

lemma re_match_no_digit: "takeWhile is_digit l = [] \<Longrightarrow> re_match l = None"
  by (simp add: re_match_def greedy_Nil)

lemma re_match_Some_line:
  assumes "re_match l = Some m"
  shows "\<not> (l = [] \<or> startswith_hash l)"
proof -
  from assms re_match_no_digit [of l] have "takeWhile is_digit l \<noteq> []" by auto
  then obtain c cs where l: "l = c # cs" and d: "is_digit c"
    by (cases l) (auto split: if_splits)
  have "\<not> is_digit CHR ''#''" by (simp add: is_digit_def)
  with l d show ?thesis by (auto simp: startswith_hash_def)
qed








text \<open>
  C8. A line that matches with page digits \<open>g3\<close> appends the record whose page is
  \<open>int(g3) + page_offset - 1\<close>, for every integer offset and with no clamping: the value
  may be negative or beyond any page count. The records returned are exactly these. Page
  5 with offset 4 gives 8.
\<close>

theorem C8_adjusted_page:
  "(re_match (strip raw) = Some (g1, g2, g3) \<longrightarrow>
      parse_loop off (raw # rest) bs out
        = parse_loop off rest
            (bs @ [\<lparr>level = py_int g1, title = g2, page = int (py_int g3) + off - 1\<rparr>]) out)
   \<and> fst (parse_loop off lines [] []) = map (record_of off) (List.map_filter re_match (considered lines))
   \<and> bookmark.page (record_of off (g1, g2, g3)) = int (py_int g3) + off - 1
   \<and> parse_loop 4 [''1 Intro 5''] [] [] = ([\<lparr>level = 1, title = ''Intro'', page = 8\<rparr>], [])
   \<and> parse_loop (- 9) [''1 Intro 5''] [] [] = ([\<lparr>level = 1, title = ''Intro'', page = - 5\<rparr>], [])
   \<and> parse_loop 0 [''1 Intro 700''] [] [] = ([\<lparr>level = 1, title = ''Intro'', page = 699\<rparr>], [])"
proof -
  have "parse_loop off (raw # rest) bs out
        = parse_loop off rest
            (bs @ [\<lparr>level = py_int g1, title = g2, page = int (py_int g3) + off - 1\<rparr>]) out"
    if "re_match (strip raw) = Some (g1, g2, g3)"
    using that re_match_Some_line [OF that] by (simp add: Let_def)
  moreover have "parse_loop 4 [''1 Intro 5''] [] [] = ([\<lparr>level = 1, title = ''Intro'', page = 8\<rparr>], [])"
    by code_simp
  moreover have "parse_loop (- 9) [''1 Intro 5''] [] [] = ([\<lparr>level = 1, title = ''Intro'', page = - 5\<rparr>], [])"
    by code_simp
  moreover have "parse_loop 0 [''1 Intro 700''] [] [] = ([\<lparr>level = 1, title = ''Intro'', page = 699\<rparr>], [])"
    by code_simp
  ultimately show ?thesis
    by (simp add: parse_loop_eq record_of_def)
qed

theorem C8_adjusted_page_witness:
  "re_match (strip ''1 Intro 5'') = Some (''1'', ''Intro'', ''5'')
   \<and> parse_loop 4 (''1 Intro 5'' # []) [] []
       = parse_loop 4 [] ([] @ [\<lparr>level = 1, title = ''Intro'', page = 8\<rparr>]) []"
proof -
  have h: "re_match (strip ''1 Intro 5'') = Some (''1'', ''Intro'', ''5'')"
    by code_simp
  have v: "py_int ''1'' = 1" "py_int ''5'' = 5"
    by code_simp+
  from C8_adjusted_page [of "''1 Intro 5''" "''1''" "''Intro''" "''5''" 4 "[]" "[]" "[]"] h
  show ?thesis by (simp add: v)
qed

section \<open>Properties of the attachment\<close>









lemma print_all_quiet: "print_all (\<lambda>_. None) ms = (ms, None)"
  by (induction ms) simp_all

lemma add_bookmarks_body_eq:
  "add_bookmarks_body lib input_pdf output_pdf bookmark_file page_offset =
     (case parse_bookmark_file (read_lines lib bookmark_file) page_offset of
        (out, Inl e) \<Rightarrow> (out, NotWritten, Inl e)
      | (out, Inr bookmarks) \<Rightarrow>
          if bookmarks = [] then (out @ [EmptyError], NotWritten, Inr False)
          else
            (case create_bookmark_tree bookmarks of
               Inl e \<Rightarrow> (out, NotWritten, Inl e)
             | Inr bookmark_tree \<Rightarrow>
                 (case open_reader lib input_pdf of
                    Inl e \<Rightarrow> (out, NotWritten, Inl e)
                  | Inr total_pages \<Rightarrow>
                      (let out2 = out @ page_warnings total_pages bookmarks in
                       case copy_pages lib [0 ..< total_pages] empty_writer of
                         Inl e \<Rightarrow> (out2, NotWritten, Inl e)
                       | Inr w1 \<Rightarrow>
                           (case add_root_bookmarks lib total_pages bookmark_tree w1 of
                              Inl e \<Rightarrow> (out2, NotWritten, Inl e)
                            | Inr w2 \<Rightarrow>
                                (case open_output_fault lib output_pdf of
                                   Some e \<Rightarrow> (out2, NotWritten, Inl e)
                                 | None \<Rightarrow>
                                     (case write_fault lib output_pdf of
                                        Some e \<Rightarrow> (out2, Incomplete, Inl e)
                                      | None \<Rightarrow>
                                          (out2 @ [Success output_pdf]
                                             @ (if page_offset \<noteq> 0
                                                then [OffsetApplied page_offset] else []),
                                           Saved w2, Inr True))))))))"
  by (simp add: add_bookmarks_body_def add_bookmarks_try_def print_all_quiet Let_def
      split: prod.splits sum.splits option.splits)

lemma add_bookmarks_to_pdf_on_quiet:
  "add_bookmarks_to_pdf_on (\<lambda>_. None) lib inp outp bf off
     = (Returned (ok (add_bookmarks_to_pdf lib inp outp bf off)),
        printed (add_bookmarks_to_pdf lib inp outp bf off),
        output_file (add_bookmarks_to_pdf lib inp outp bf off))"
  by (simp add: add_bookmarks_to_pdf_on_def add_bookmarks_to_pdf_def add_bookmarks_body_def
      split: prod.splits sum.splits)


lemma run_read_fault:
  assumes "snd (read_lines lib bf) = Some e"
  shows "\<exists>out. add_bookmarks_to_pdf lib inp outp bf off
           = \<lparr>ok = False, printed = out @ [ExceptionError e], output_file = NotWritten\<rparr>"
  using assms
  by (simp add: add_bookmarks_to_pdf_def add_bookmarks_body_eq parse_bookmark_file_def
      split: prod.splits)


lemma run_build_fault:
  assumes "parse_bookmark_file (read_lines lib bf) off = (out, Inr bookmarks)" "bookmarks \<noteq> []"
    and "create_bookmark_tree bookmarks = Inl e"
  shows "add_bookmarks_to_pdf lib inp outp bf off
           = \<lparr>ok = False, printed = out @ [ExceptionError e], output_file = NotWritten\<rparr>"
  using assms by (simp add: add_bookmarks_to_pdf_def add_bookmarks_body_eq)

lemma run_reader_fault:
  assumes "parse_bookmark_file (read_lines lib bf) off = (out, Inr bookmarks)" "bookmarks \<noteq> []"
    and "create_bookmark_tree bookmarks = Inr tree" and "open_reader lib inp = Inl e"
  shows "add_bookmarks_to_pdf lib inp outp bf off
           = \<lparr>ok = False, printed = out @ [ExceptionError e], output_file = NotWritten\<rparr>"
  using assms by (simp add: add_bookmarks_to_pdf_def add_bookmarks_body_eq)











end
